theory Spec2Isabelle
  imports Complex_Main "HOL-Library.Sublist"
begin

section \<open>The Absurdle solver notebook: pattern matching and the adversarial reduction\<close>

text \<open>
  The notebook \<^verbatim>\<open>solver.ipynb\<close> defines four functions over string tensors:
  \<^verbatim>\<open>append_sequence_no\<close>, \<^verbatim>\<open>match_pattern_vec\<close>, \<^verbatim>\<open>match_pattern\<close> and
  \<^verbatim>\<open>reduce_targets_by_test\<close>. They are embedded here as functions over lists.
  A word is a \<^typ>\<open>string\<close> of ASCII characters (one character is one code point), a rank-1
  integer tensor is an \<^typ>\<open>int list\<close>, a rank-2 tensor is a list of rows.
  A tensor operation that rejects its argument raises \<^verbatim>\<open>InvalidArgumentError\<close>; the
  model returns it as the left summand. Every function that reaches \<^verbatim>\<open>tf.gather_nd\<close>
  takes the kernel that executes it as its first argument.
\<close>

subsection \<open>Tensor primitives used by the notebook\<close>

datatype error = InvalidArgumentError

text \<open>\<^verbatim>\<open>word_length = 5\<close>, a global of the notebook.\<close>

definition word_length :: nat where
  "word_length = 5"

text \<open>\<^verbatim>\<open>tf.strings.unicode_decode(s, 'UTF-8')\<close> on an ASCII string: its code points.\<close>

definition unicode_decode :: "string \<Rightarrow> int list" where
  "unicode_decode s = map (\<lambda>c. int (of_char c)) s"

text \<open>\<^verbatim>\<open>tf.reshape(x, (n,))\<close>: the same elements, provided there are exactly \<open>n\<close> of them.\<close>

definition reshape :: "int list \<Rightarrow> nat \<Rightarrow> error + int list" where
  "reshape xs n = (if length xs = n then Inr xs else Inl InvalidArgumentError)"

text \<open>
  \<^verbatim>\<open>tf.one_hot(x, depth)\<close>: a vector of \<open>depth\<close> entries with a one at index \<open>x\<close>; an index
  outside \<open>[0, depth)\<close> gives the zero vector. The notebook accumulates these in float32
  and casts to int32; the sums are at most \<open>word_length\<close>, so integers are exact.
\<close>

definition one_hot :: "int \<Rightarrow> nat \<Rightarrow> int list" where
  "one_hot x depth = map (\<lambda>k. if int k = x then 1 else 0) [0..<depth]"

text \<open>\<^verbatim>\<open>tf.scan(fn, elems, initializer)\<close>: the running results of a left fold.\<close>

fun scan :: "('a \<Rightarrow> 'b \<Rightarrow> 'a) \<Rightarrow> 'b list \<Rightarrow> 'a \<Rightarrow> 'a list" where
  "scan fn [] a = []"
| "scan fn (x # xs) a = fn a x # scan fn xs (fn a x)"

text \<open>
  \<^verbatim>\<open>tf.gather_nd(params, indices)\<close> for a rank-2 \<open>params\<close> and a list of (row, column)
  index pairs. The notebook passes no \<^verbatim>\<open>bad_indices_policy\<close>, so the kernel on which the
  operation is placed decides what an index out of bounds does: the host kernel raises
  \<^verbatim>\<open>InvalidArgumentError\<close>, the accelerator kernel stores 0 for it. Both occur: the run
  recorded in the notebook returns a value for a test word that shares green positions with
  targets, which only the accelerator kernel does.
\<close>

datatype kernel = Host | Accelerator

definition in_bounds :: "int list list \<Rightarrow> nat \<times> int \<Rightarrow> bool" where
  "in_bounds params ix =
     (case ix of (i, c) \<Rightarrow> i < length params \<and> 0 \<le> c \<and> nat c < length (params ! i))"

definition gather_nd :: "kernel \<Rightarrow> int list list \<Rightarrow> (nat \<times> int) list \<Rightarrow> error + int list" where
  "gather_nd k params indices =
     (case k of
        Host \<Rightarrow>
          if list_all (in_bounds params) indices
          then Inr (map (\<lambda>(i, c). params ! i ! nat c) indices)
          else Inl InvalidArgumentError
      | Accelerator \<Rightarrow>
          Inr (map (\<lambda>(i, c). if in_bounds params (i, c) then params ! i ! nat c else 0)
                 indices))"

text \<open>
  \<^verbatim>\<open>tf.map_fn(fn, elems)\<close>: \<open>fn\<close> on every element, in order; an error of one call is
  the error of the whole.
\<close>

fun map_fn :: "('a \<Rightarrow> error + 'b) \<Rightarrow> 'a list \<Rightarrow> error + 'b list" where
  "map_fn fn [] = Inr []"
| "map_fn fn (x # xs) =
     (case fn x of
        Inl e \<Rightarrow> Inl e
      | Inr y \<Rightarrow> (case map_fn fn xs of Inl e \<Rightarrow> Inl e | Inr ys \<Rightarrow> Inr (y # ys)))"

text \<open>The position of the first occurrence of a value in a list.\<close>

fun index_of :: "'a \<Rightarrow> 'a list \<Rightarrow> nat" where
  "index_of v [] = 0"
| "index_of v (y # ys) = (if v = y then 0 else Suc (index_of v ys))"

text \<open>
  \<^verbatim>\<open>tf.unique_with_counts(x)\<close> returns \<open>(y, idx, count)\<close>: \<open>y\<close> holds the distinct values
  of \<open>x\<close> in the order in which they first occur, \<open>idx\<close> gives for every element of \<open>x\<close>
  its position in \<open>y\<close>, and \<open>count\<close> gives for every element of \<open>y\<close> how often it occurs
  in \<open>x\<close>. \<open>unique_acc\<close> is the kernel's single pass that appends each unseen value.
\<close>

fun unique_acc :: "int list \<Rightarrow> int list \<Rightarrow> int list" where
  "unique_acc y [] = y"
| "unique_acc y (x # xs) = (if x \<in> set y then unique_acc y xs else unique_acc (y @ [x]) xs)"

definition unique_with_counts :: "int list \<Rightarrow> int list \<times> nat list \<times> nat list" where
  "unique_with_counts x =
     (let y = unique_acc [] x
      in (y, map (\<lambda>v. index_of v y) x, map (\<lambda>v. count_list x v) y))"

text \<open>
  \<^verbatim>\<open>tf.argmax(input)\<close> on a rank-1 tensor: the index of the largest value, the smallest
  such index when the largest value occurs more than once; an empty tensor is rejected.
\<close>

definition argmax :: "nat list \<Rightarrow> error + nat" where
  "argmax cs =
     (case cs of
        [] \<Rightarrow> Inl InvalidArgumentError
      | c # cs' \<Rightarrow> Inr (index_of (fold max cs' c) cs))"

text \<open>\<^verbatim>\<open>tensor[mask]\<close>: the elements whose mask entry is true, in order.\<close>

definition boolean_mask :: "'a list \<Rightarrow> bool list \<Rightarrow> 'a list" where
  "boolean_mask xs keep = map fst (filter snd (zip xs keep))"

subsection \<open>The notebook's functions\<close>

text \<open>
  \<^verbatim>\<open>append_sequence_no(word)\<close>: \<open>counter\<close> row \<open>i\<close> counts every letter among
  \<open>word[0..i]\<close>; \<open>sequence_no[i]\<close> is the count of \<open>word[i]\<close> itself there ("the first e,
  the second a"); the result pairs every letter with its sequence number. It is only
  called on vectors that \<open>match_pattern_vec\<close> has reshaped to \<open>word_length\<close>. A letter
  outside \<open>[0, 26)\<close>, such as the mask \<open>-1\<close>, is a column out of bounds for the gather.
\<close>

definition append_sequence_no :: "kernel \<Rightarrow> int list \<Rightarrow> error + (int \<times> int) list" where
  "append_sequence_no k word =
     (let counter = scan (\<lambda>a x. map2 (+) a (one_hot x 26)) word (replicate 26 0)
      in case gather_nd k counter (zip [0..<word_length] word) of
           Inl e \<Rightarrow> Inl e
         | Inr sequence_no \<Rightarrow> Inr (zip word sequence_no))"

text \<open>
  \<^verbatim>\<open>match_pattern_vec(test, target)\<close>: both words become vectors of letter offsets from
  \<open>a\<close>; the green mask marks equal letters at equal positions; the green positions of
  \<open>test\<close> are masked with \<open>-1\<close>; the yellow mask marks every position of the masked test
  whose (letter, sequence number) pair occurs among the pairs of the target.
\<close>

definition match_pattern_vec :: "kernel \<Rightarrow> string \<Rightarrow> string \<Rightarrow> error + int list" where
  "match_pattern_vec k test target =
     (case reshape (map (\<lambda>x. x - 97) (unicode_decode test)) word_length of
        Inl e \<Rightarrow> Inl e
      | Inr test' \<Rightarrow>
     (case reshape (map (\<lambda>x. x - 97) (unicode_decode target)) word_length of
        Inl e \<Rightarrow> Inl e
      | Inr target' \<Rightarrow>
         (let green_mask = map2 (\<lambda>a b. if a = b then 1 else 0) test' target';
              test_masked = map2 (\<lambda>g t. if g \<noteq> (0::int) then - 1 else t) green_mask test'
          in case append_sequence_no k test_masked of
               Inl e \<Rightarrow> Inl e
             | Inr test_sequenced \<Rightarrow>
            (case append_sequence_no k target' of
               Inl e \<Rightarrow> Inl e
             | Inr target_sequenced \<Rightarrow>
                (let yellow_mask =
                       map (\<lambda>t. if list_ex (\<lambda>s. fst t = fst s \<and> snd t = snd s)
                                      target_sequenced
                               then 1 else 0) test_sequenced
                 in Inr (map2 (\<lambda>g y. 2 * g + 1 * y) green_mask yellow_mask))))))"

text \<open>\<^verbatim>\<open>match_pattern(test, target)\<close>: \<open>sum(vec * 3 ** range(word_length))\<close>.\<close>

definition match_pattern :: "kernel \<Rightarrow> string \<Rightarrow> string \<Rightarrow> error + int" where
  "match_pattern k test target =
     (case match_pattern_vec k test target of
        Inl e \<Rightarrow> Inl e
      | Inr vec \<Rightarrow> Inr (sum_list (map2 (*) vec (map (\<lambda>i. 3 ^ i) [0..<word_length]))))"

text \<open>
  \<^verbatim>\<open>reduce_targets_by_test(targets, test)\<close>: the pattern of every target, the distinct
  patterns with their counts, the index of the largest count, and the targets whose pattern
  has that index.
\<close>

definition reduce_targets_by_test ::
    "kernel \<Rightarrow> string list \<Rightarrow> string \<Rightarrow> error + string list" where
  "reduce_targets_by_test k targets test =
     (case map_fn (\<lambda>target. match_pattern k test target) targets of
        Inl e \<Rightarrow> Inl e
      | Inr patterns \<Rightarrow>
         (case unique_with_counts patterns of
            (unique_patterns, pattern_indices, pattern_counts) \<Rightarrow>
              (case argmax pattern_counts of
                 Inl e \<Rightarrow> Inl e
               | Inr idx_max \<Rightarrow>
                   Inr (boolean_mask targets (map (\<lambda>i. i = idx_max) pattern_indices)))))"

subsection \<open>Vocabulary of the properties\<close>

text \<open>
  A valid word: exactly \<open>word_length\<close> characters, each a lowercase letter \<open>a\<close> to \<open>z\<close>
  (code points 97 to 122).
\<close>

definition valid_word :: "string \<Rightarrow> bool" where
  "valid_word w \<longleftrightarrow>
     length w = word_length \<and> list_all (\<lambda>c. (97::nat) \<le> of_char c \<and> of_char c \<le> (122::nat)) w"

text \<open>
  The number of positions of \<open>test\<close> that hold the letter \<open>v\<close> and carry a mark other than
  BLACK (0) in the pattern vector \<open>vec\<close>.
\<close>

definition marked_count :: "char \<Rightarrow> string \<Rightarrow> int list \<Rightarrow> nat" where
  "marked_count v test vec = length (filter (\<lambda>(c, m). c = v \<and> m \<noteq> 0) (zip test vec))"

text \<open>
  The group of a pattern: the targets whose pattern integer against \<open>test\<close> is \<open>p\<close>, in the
  order of \<open>targets\<close>.
\<close>

definition pattern_group :: "kernel \<Rightarrow> string \<Rightarrow> string list \<Rightarrow> int \<Rightarrow> string list" where
  "pattern_group k test targets p = filter (\<lambda>t. match_pattern k test t = Inr p) targets"

text \<open>
  No green between \<open>test\<close> and \<open>target\<close>: at no position do the two words hold the same
  letter. Then \<open>match_pattern_vec\<close> masks nothing, and for valid words every gather is in
  bounds.
\<close>

definition no_green :: "string \<Rightarrow> string \<Rightarrow> bool" where
  "no_green test target = list_all (\<lambda>(a, b). a \<noteq> b) (zip test target)"

section \<open>The pattern matcher\<close>

subsection \<open>Shapes of the intermediate tensors\<close>

lemma length_scan: "length (scan fn xs a) = length xs"
  by (induction xs arbitrary: a) simp_all

lemma length_one_hot: "length (one_hot x depth) = depth"
  by (simp add: one_hot_def)

lemma counter_rows:
  "length a = n \<Longrightarrow> row \<in> set (scan (\<lambda>a x. map2 (+) a (one_hot x n)) word a) \<Longrightarrow>
     length row = n"
proof (induction word arbitrary: a)
  case Nil
  then show ?case by simp
next
  case (Cons x word)
  have step: "length (map2 (+) a (one_hot x n)) = n"
    using Cons.prems(1) by (simp add: length_one_hot)
  show ?case
  proof (cases "row = map2 (+) a (one_hot x n)")
    case True
    then show ?thesis using step by simp
  next
    case False
    then have "row \<in> set (scan (\<lambda>a x. map2 (+) a (one_hot x n)) word (map2 (+) a (one_hot x n)))"
      using Cons.prems(2) by simp
    then show ?thesis
      by (rule Cons.IH [OF step])
  qed
qed

lemma gather_nd_returns:
  assumes "k = Accelerator \<or> list_all (in_bounds params) indices"
  shows "\<exists>vs. gather_nd k params indices = Inr vs \<and> length vs = length indices"
  using assms by (cases k) (auto simp: gather_nd_def)

lemma append_sequence_no_returns:
  assumes len: "length word = word_length"
    and ok: "k = Accelerator \<or> (\<forall>x\<in>set word. 0 \<le> x \<and> x < 26)"
  shows "\<exists>ps. append_sequence_no k word = Inr ps \<and> map fst ps = word"
proof -
  define counter where
    "counter = scan (\<lambda>a x. map2 (+) a (one_hot x 26)) word (replicate 26 (0::int))"
  have lc: "length counter = word_length"
    by (simp add: counter_def length_scan len)
  have rows: "length (counter ! i) = 26" if "i < word_length" for i
  proof -
    have "counter ! i \<in> set counter"
      using that lc by simp
    then have "counter ! i \<in>
        set (scan (\<lambda>a x. map2 (+) a (one_hot x 26)) word (replicate 26 (0::int)))"
      by (simp only: counter_def)
    moreover have "length (replicate 26 (0::int)) = 26"
      by simp
    ultimately show ?thesis
      using counter_rows by blast
  qed
  have "k = Accelerator \<or> list_all (in_bounds counter) (zip [0..<word_length] word)"
  proof (cases k)
    case Host
    then have letters: "\<forall>x\<in>set word. 0 \<le> x \<and> x < 26"
      using ok by simp
    have "in_bounds counter ix" if "ix \<in> set (zip [0..<word_length] word)" for ix
    proof -
      obtain i c where ix: "ix = (i, c)" by (cases ix)
      then have "i \<in> set [0..<word_length]" and "c \<in> set word"
        using that by (auto dest: set_zip_leftD set_zip_rightD)
      then show ?thesis
        using letters rows [of i] lc by (auto simp: in_bounds_def ix)
    qed
    then show ?thesis by (simp add: list_all_iff)
  next
    case Accelerator
    then show ?thesis by simp
  qed
  then obtain vs where vs: "gather_nd k counter (zip [0..<word_length] word) = Inr vs"
    and lvs: "length vs = length (zip [0..<word_length] word)"
    using gather_nd_returns by blast
  have "append_sequence_no k word = Inr (zip word vs)"
    using vs by (simp add: append_sequence_no_def counter_def [symmetric])
  moreover have "map fst (zip word vs) = word"
    using lvs len by (simp add: map_fst_zip)
  ultimately show ?thesis by blast
qed

lemma valid_word_letters:
  assumes "valid_word w"
  shows "length (map (\<lambda>x. x - 97) (unicode_decode w)) = word_length"
    and "\<forall>x\<in>set (map (\<lambda>x. x - 97) (unicode_decode w)). 0 \<le> x \<and> x < 26"
  using assms by (auto simp: valid_word_def unicode_decode_def list_all_iff)

lemma no_green_nth:
  assumes "no_green test target" and "i < length test" and "i < length target"
  shows "test ! i \<noteq> target ! i"
proof -
  have "(test ! i, target ! i) \<in> set (zip test target)"
    using assms(2,3) by (auto simp: set_zip)
  then show ?thesis
    using assms(1) by (auto simp: no_green_def list_all_iff)
qed

lemma match_pattern_vec_nth:
  assumes vtest: "valid_word test" and vt: "valid_word target"
    and ok: "k = Accelerator \<or> no_green test target"
  shows "\<exists>vec. match_pattern_vec k test target = Inr vec \<and> length vec = word_length \<and>
           (\<forall>i<word_length. (test ! i = target ! i \<longrightarrow> vec ! i = 2) \<and>
                             (test ! i \<noteq> target ! i \<longrightarrow> vec ! i = 0 \<or> vec ! i = 1))"
proof -
  define T where "T = map (\<lambda>x. x - 97) (unicode_decode test)"
  define U where "U = map (\<lambda>x. x - 97) (unicode_decode target)"
  define G where "G = map2 (\<lambda>a b. if a = b then 1 else (0::int)) T U"
  define M where "M = map2 (\<lambda>g t. if g \<noteq> (0::int) then - 1 else t) G T"
  have lt: "length test = word_length" and lu: "length target = word_length"
    using vtest vt by (simp_all add: valid_word_def)
  have lT: "length T = word_length" and lU: "length U = word_length"
    using lt lu by (simp_all add: T_def U_def unicode_decode_def)
  have Tletters: "\<forall>x\<in>set T. 0 \<le> x \<and> x < 26" and Uletters: "\<forall>x\<in>set U. 0 \<le> x \<and> x < 26"
    unfolding T_def U_def by (rule valid_word_letters [OF vtest] valid_word_letters [OF vt])+
  have lG: "length G = word_length"
    using lT lU by (simp add: G_def)
  have lM: "length M = word_length"
    using lG lT by (simp add: M_def)
  have Gi: "G ! i = (if test ! i = target ! i then 1 else 0)" if "i < word_length" for i
    using that lt lu by (simp add: G_def T_def U_def unicode_decode_def)
  have Mi: "M ! i = (if G ! i \<noteq> 0 then - 1 else T ! i)" if "i < word_length" for i
    using that lG lT by (simp add: M_def)
  have "k = Accelerator \<or> (\<forall>x\<in>set M. 0 \<le> x \<and> x < 26)"
  proof (cases k)
    case Host
    then have ng: "no_green test target"
      using ok by simp
    have "0 \<le> M ! i \<and> M ! i < 26" if i: "i < word_length" for i
    proof -
      have "test ! i \<noteq> target ! i"
        using ng i lt lu by (intro no_green_nth) simp_all
      then have "M ! i = T ! i"
        using Gi [OF i] Mi [OF i] by simp
      moreover have "T ! i \<in> set T"
        using i lT by simp
      ultimately show ?thesis
        using Tletters by auto
    qed
    then show ?thesis
      using lM by (auto simp: in_set_conv_nth)
  next
    case Accelerator
    then show ?thesis by simp
  qed
  then obtain TS where TS: "append_sequence_no k M = Inr TS" and fTS: "map fst TS = M"
    using append_sequence_no_returns [OF lM] by blast
  obtain US where US: "append_sequence_no k U = Inr US" and fUS: "map fst US = U"
    using append_sequence_no_returns [OF lU] Uletters by blast
  define Y where "Y = map (\<lambda>t. if list_ex (\<lambda>s. fst t = fst s \<and> snd t = snd s) US
                                  then 1 else (0::int)) TS"
  define vec where "vec = map2 (\<lambda>g y. 2 * g + 1 * y) G Y"
  have lTS: "length TS = word_length"
    using fTS lM by (metis length_map)
  have lY: "length Y = word_length"
    using lTS by (simp add: Y_def)
  have lvec: "length vec = word_length"
    using lG lY by (simp add: vec_def)
  have res: "match_pattern_vec k test target = Inr vec"
    using lT lU TS US
    unfolding match_pattern_vec_def vec_def Y_def
    by (simp add: reshape_def Let_def T_def [symmetric] U_def [symmetric] G_def [symmetric]
        M_def [symmetric])
  have Upos: "0 \<le> fst s" if "s \<in> set US" for s
  proof -
    have "fst s \<in> set (map fst US)"
      using that by simp
    then show ?thesis
      using Uletters by (simp add: fUS)
  qed
  have nth: "(test ! i = target ! i \<longrightarrow> vec ! i = 2) \<and>
             (test ! i \<noteq> target ! i \<longrightarrow> vec ! i = 0 \<or> vec ! i = 1)" if i: "i < word_length" for i
  proof -
    have "map fst TS ! i = M ! i"
      by (simp add: fTS)
    then have fTSi: "fst (TS ! i) = M ! i"
      using i lTS by simp
    have Yi: "Y ! i = (if list_ex (\<lambda>s. fst (TS ! i) = fst s \<and> snd (TS ! i) = snd s) US
                       then 1 else 0)"
      using i lTS by (simp add: Y_def)
    have veci: "vec ! i = 2 * G ! i + Y ! i"
      using i lG lY by (simp add: vec_def)
    show ?thesis
    proof (cases "test ! i = target ! i")
      case True
      then have "fst (TS ! i) = - 1"
        using Gi [OF i] Mi [OF i] fTSi by simp
      then have "\<not> list_ex (\<lambda>s. fst (TS ! i) = fst s \<and> snd (TS ! i) = snd s) US"
        using Upos by (fastforce simp: list_ex_iff)
      then show ?thesis using True Gi [OF i] Yi veci by simp
    next
      case False
      then show ?thesis using Gi [OF i] Yi veci by simp
    qed
  qed
  show ?thesis using res lvec nth by blast
qed




subsection \<open>The worked example\<close>

text \<open>
  Claim C4: the pattern vector of test \<open>speed\<close> against target \<open>abide\<close> is \<open>[0,0,1,0,1]\<close>:
  one YELLOW for the \<open>e\<close> at index 2, one YELLOW for the \<open>d\<close> at index 4, every other
  position BLACK, two entries other than BLACK in all. The two words share no green
  position, so both kernels give this vector.
\<close>

theorem speed_abide_pattern_vec:
  "match_pattern_vec Host ''speed'' ''abide'' = Inr [0, 0, 1, 0, 1] \<and>
   match_pattern_vec Accelerator ''speed'' ''abide'' = Inr [0, 0, 1, 0, 1] \<and>
   marked_count CHR ''e'' ''speed'' [0, 0, 1, 0, 1] = 1 \<and>
   marked_count CHR ''d'' ''speed'' [0, 0, 1, 0, 1] = 1 \<and>
   length (filter (\<lambda>m. m \<noteq> 0) [0, 0, 1, 0, 1 :: int]) = 2"
  by code_simp

text \<open>
  Claim C5: the encoded integer of test \<open>speed\<close> against target \<open>abide\<close> is claimed to be
  10, the value the notebook's description gives for the pattern \<open>[0,0,1,0,1]\<close> read as a
  ternary string. \<open>match_pattern\<close> weights position \<open>i\<close> with \<open>3 ^ i\<close>, so what it computes
  is \<open>9 + 81 = 90\<close>, on either kernel.
\<close>

theorem speed_abide_pattern_number:
  "match_pattern Host ''speed'' ''abide'' = Inr 90 \<and>
   match_pattern Accelerator ''speed'' ''abide'' = Inr 90"
  by code_simp

subsection \<open>Repeated letters\<close>

text \<open>
  Claim C1: for every letter, the positions of \<open>test\<close> marked GREEN or YELLOW for that letter
  should be no more than its occurrences in \<open>target\<close>; a target letter used by a GREEN should
  not give a YELLOW elsewhere. \<open>match_pattern_vec\<close> masks the green positions in \<open>test\<close>
  only; the sequence numbers of \<open>target\<close> still count the letters that a GREEN has used. For
  test \<open>speed\<close> and target \<open>steam\<close> the single \<open>e\<close> of the target gives, on the accelerator
  kernel, a GREEN at index 2 and a YELLOW at index 3; for target \<open>abbey\<close> it gives a GREEN
  at index 3 and a YELLOW at index 2. Either way there are two marks for one occurrence. On
  the host kernel both calls raise, so no kernel gives what the claim says.
\<close>

theorem repeated_letter_marks_exceed_occurrences:
  "match_pattern_vec Accelerator ''speed'' ''steam'' = Inr [2, 0, 2, 1, 0] \<and>
   marked_count CHR ''e'' ''speed'' [2, 0, 2, 1, 0] = 2 \<and>
   count_list ''steam'' CHR ''e'' = 1 \<and>
   match_pattern_vec Accelerator ''speed'' ''abbey'' = Inr [0, 0, 1, 2, 0] \<and>
   marked_count CHR ''e'' ''speed'' [0, 0, 1, 2, 0] = 2 \<and>
   count_list ''abbey'' CHR ''e'' = 1 \<and>
   match_pattern_vec Host ''speed'' ''steam'' = Inl InvalidArgumentError \<and>
   match_pattern_vec Host ''speed'' ''abbey'' = Inl InvalidArgumentError"
  by code_simp

subsection \<open>Scoring a word against itself\<close>




subsection \<open>Well-formed patterns\<close>




section \<open>The adversarial reduction\<close>

subsection \<open>Mapping over the targets\<close>

lemma map_fn_Inr_iff: "map_fn fn xs = Inr ps \<longleftrightarrow> map fn xs = map Inr ps"
proof (induction xs arbitrary: ps)
  case Nil
  then show ?case by auto
next
  case (Cons x xs)
  show ?case
  proof (cases "fn x")
    case (Inl e)
    then show ?thesis by (cases ps) auto
  next
    case (Inr y)
    show ?thesis
    proof (cases "map_fn fn xs")
      case (Inl e)
      then have "map fn xs \<noteq> map Inr qs" for qs
        using Cons.IH [of qs] by simp
      with Inl Inr show ?thesis by (cases ps) auto
    next
      case r: (Inr ys)
      then have "map fn xs = map Inr qs \<longleftrightarrow> qs = ys" for qs
        using Cons.IH [of qs] by auto
      with r Inr show ?thesis by (cases ps) auto
    qed
  qed
qed

lemma boolean_mask_map:
  "map fn xs = map Inr ps \<Longrightarrow>
     boolean_mask xs (map P ps) = filter (\<lambda>x. \<exists>p. fn x = Inr p \<and> P p) xs"
proof (induction xs arbitrary: ps)
  case Nil
  then show ?case by (simp add: boolean_mask_def)
next
  case (Cons x xs)
  then obtain p qs where ps: "ps = p # qs" and px: "fn x = Inr p"
    and rest: "map fn xs = map Inr qs"
    by (cases ps) auto
  have "boolean_mask xs (map P qs) = filter (\<lambda>x. \<exists>p. fn x = Inr p \<and> P p) xs"
    by (rule Cons.IH [OF rest])
  then show ?case
    using px by (simp add: ps boolean_mask_def)
qed

lemma count_list_map:
  "map fn xs = map Inr ps \<Longrightarrow> count_list ps v = length (filter (\<lambda>x. fn x = Inr v) xs)"
proof (induction xs arbitrary: ps)
  case Nil
  then show ?case by simp
next
  case (Cons x xs)
  then obtain p qs where ps: "ps = p # qs" and px: "fn x = Inr p"
    and rest: "map fn xs = map Inr qs"
    by (cases ps) auto
  show ?case
    using Cons.IH [OF rest] px by (auto simp: ps)
qed

lemma match_pattern_total:
  assumes "valid_word test" and "valid_word target"
    and "k = Accelerator \<or> no_green test target"
  shows "\<exists>p. match_pattern k test target = Inr p"
proof -
  obtain vec where "match_pattern_vec k test target = Inr vec"
    using match_pattern_vec_nth [OF assms] by blast
  then show ?thesis
    by (simp add: match_pattern_def)
qed

lemma patterns_exist:
  assumes "valid_word test" and "\<forall>t\<in>set targets. valid_word t"
    and "k = Accelerator \<or> (\<forall>t\<in>set targets. no_green test t)"
  shows "\<exists>ps. map (match_pattern k test) targets = map Inr ps"
  using assms(2,3)
proof (induction targets)
  case Nil
  then show ?case by simp
next
  case (Cons t ts)
  have "k = Accelerator \<or> (\<forall>t\<in>set ts. no_green test t)"
    using Cons.prems(2) by auto
  then obtain ps where "map (match_pattern k test) ts = map Inr ps"
    using Cons.IH Cons.prems(1) by auto
  moreover have "k = Accelerator \<or> no_green test t"
    using Cons.prems(2) by auto
  then obtain p where "match_pattern k test t = Inr p"
    using match_pattern_total [OF assms(1), of t k] Cons.prems(1) by auto
  ultimately have "map (match_pattern k test) (t # ts) = map Inr (p # ps)"
    by simp
  then show ?case by blast
qed

subsection \<open>Distinct values in order of first occurrence, and the largest count\<close>

lemma set_unique_acc: "set (unique_acc y xs) = set y \<union> set xs"
  by (induction xs arbitrary: y) auto

lemma distinct_unique_acc: "distinct y \<Longrightarrow> distinct (unique_acc y xs)"
  by (induction xs arbitrary: y) auto

lemma index_of_less: "v \<in> set ys \<Longrightarrow> index_of v ys < length ys"
  by (induction ys) auto

lemma nth_index_of: "v \<in> set ys \<Longrightarrow> ys ! index_of v ys = v"
  by (induction ys) auto

lemma index_of_first: "j < index_of v ys \<Longrightarrow> ys ! j \<noteq> v"
proof (induction ys arbitrary: j)
  case Nil
  then show ?case by simp
next
  case (Cons y ys)
  then show ?case by (cases j) (auto split: if_splits)
qed

lemma index_of_nth: "distinct ys \<Longrightarrow> i < length ys \<Longrightarrow> index_of (ys ! i) ys = i"
proof (induction ys arbitrary: i)
  case Nil
  then show ?case by simp
next
  case (Cons y ys)
  then show ?case by (cases i) auto
qed

lemma index_of_append:
  "index_of v (ys @ zs) = (if v \<in> set ys then index_of v ys else length ys + index_of v zs)"
  by (induction ys) auto

lemma unique_acc_order:
  "distinct y \<Longrightarrow> a < b \<Longrightarrow> b < length (unique_acc y xs) \<Longrightarrow>
     index_of (unique_acc y xs ! a) (y @ xs) < index_of (unique_acc y xs ! b) (y @ xs)"
proof (induction xs arbitrary: y)
  case Nil
  then show ?case by (simp add: index_of_nth)
next
  case (Cons x xs)
  show ?case
  proof (cases "x \<in> set y")
    case True
    let ?u = "unique_acc y xs"
    have lt: "index_of (?u ! a) (y @ xs) < index_of (?u ! b) (y @ xs)"
      using Cons.IH [OF Cons.prems(1,2)] Cons.prems(3) True by simp
    have shift: "index_of v (y @ x # xs) =
                   (if v \<in> set y then index_of v (y @ xs) else Suc (index_of v (y @ xs)))" for v
      using True by (auto simp: index_of_append)
    have below: "v \<in> set y \<Longrightarrow> index_of v (y @ xs) < length y" for v
      by (simp add: index_of_append index_of_less)
    have above: "v \<notin> set y \<Longrightarrow> length y \<le> index_of v (y @ xs)" for v
      by (simp add: index_of_append)
    have "index_of (?u ! a) (y @ x # xs) < index_of (?u ! b) (y @ x # xs)"
      using lt below [of "?u ! a"] above [of "?u ! a"] below [of "?u ! b"] above [of "?u ! b"]
      unfolding shift by (auto split: if_splits)
    then show ?thesis using True by simp
  next
    case False
    then have d: "distinct (y @ [x])" using Cons.prems(1) by simp
    show ?thesis
      using Cons.IH [OF d Cons.prems(2)] Cons.prems(3) False by simp
  qed
qed

lemma argmax_first_max:
  assumes "cs \<noteq> []"
  shows "\<exists>k. argmax cs = Inr k \<and> k < length cs \<and> (\<forall>j<length cs. cs ! j \<le> cs ! k) \<and>
             (\<forall>j<k. cs ! j < cs ! k)"
proof -
  obtain c cs' where cs: "cs = c # cs'"
    using assms by (cases cs) auto
  define m where "m = Max (set cs)"
  have m_fold: "fold max cs' c = m"
    unfolding m_def cs by (rule Max.set_eq_fold [symmetric])
  have m_in: "m \<in> set cs"
    unfolding m_def using assms by (intro Max_in) auto
  have m_ge: "x \<in> set cs \<Longrightarrow> x \<le> m" for x
    unfolding m_def by simp
  let ?k = "index_of m cs"
  have k: "argmax cs = Inr ?k"
    using m_fold by (simp add: argmax_def cs)
  have 1: "?k < length cs" by (rule index_of_less [OF m_in])
  have 2: "cs ! ?k = m" by (rule nth_index_of [OF m_in])
  have 3: "\<forall>j<length cs. cs ! j \<le> cs ! ?k"
    using m_ge 2 by simp
  have 4: "\<forall>j<?k. cs ! j < cs ! ?k"
  proof (intro allI impI)
    fix j assume j: "j < ?k"
    then have "cs ! j \<noteq> m" by (rule index_of_first)
    moreover have "cs ! j \<le> m" using j 1 m_ge by simp
    ultimately show "cs ! j < cs ! ?k" using 2 by simp
  qed
  show ?thesis using k 1 3 4 by blast
qed

subsection \<open>What the reduction returns\<close>

lemma reduce_winner:
  assumes ps: "map (match_pattern k test) targets = map Inr ps" and ne: "targets \<noteq> []"
  shows "\<exists>w\<in>set ps.
           reduce_targets_by_test k targets test =
             Inr (filter (\<lambda>t. match_pattern k test t = Inr w) targets) \<and>
           (\<forall>q. count_list ps q \<le> count_list ps w) \<and>
           (\<forall>q\<in>set ps. q \<noteq> w \<and> count_list ps q = count_list ps w \<longrightarrow>
                        index_of w ps < index_of q ps)"
proof -
  define y where "y = unique_acc [] ps"
  define cnt where "cnt = map (\<lambda>v. count_list ps v) y"
  have ps_ne: "ps \<noteq> []"
    using ps ne by auto
  have set_y: "set y = set ps"
    by (simp add: y_def set_unique_acc)
  have dist_y: "distinct y"
    by (simp add: y_def distinct_unique_acc)
  have "y \<noteq> []"
    using set_y ps_ne by auto
  then have "cnt \<noteq> []"
    by (simp add: cnt_def)
  then obtain im where im: "argmax cnt = Inr im" and k_len: "im < length cnt"
    and k_max: "\<forall>j<length cnt. cnt ! j \<le> cnt ! im" and k_first: "\<forall>j<im. cnt ! j < cnt ! im"
    using argmax_first_max by blast
  have k_y: "im < length y"
    using k_len by (simp add: cnt_def)
  define w where "w = y ! im"
  have w_in: "w \<in> set ps"
    using k_y set_y unfolding w_def by (metis nth_mem)
  have cnt_nth: "cnt ! j = count_list ps (y ! j)" if "j < length y" for j
    using that by (simp add: cnt_def)
  have idx: "index_of p y = im \<longleftrightarrow> p = w" if "p \<in> set ps" for p
    using that set_y dist_y k_y nth_index_of [of p y] index_of_nth [of y im]
    unfolding w_def by auto
  have "reduce_targets_by_test k targets test =
          Inr (boolean_mask targets (map (\<lambda>p. index_of p y = im) ps))"
    using ps im
    by (simp add: reduce_targets_by_test_def map_fn_Inr_iff [THEN iffD2] unique_with_counts_def
        Let_def y_def [symmetric] cnt_def [symmetric] comp_def)
  also have "boolean_mask targets (map (\<lambda>p. index_of p y = im) ps) =
          filter (\<lambda>t. \<exists>p. match_pattern k test t = Inr p \<and> index_of p y = im) targets"
    by (rule boolean_mask_map [OF ps])
  also have "\<dots> = filter (\<lambda>t. match_pattern k test t = Inr w) targets"
  proof (rule filter_cong [OF refl])
    fix t assume "t \<in> set targets"
    then have "match_pattern k test t \<in> set (map Inr ps)"
      using ps by (metis image_eqI set_map)
    then obtain p where p: "match_pattern k test t = Inr p" "p \<in> set ps"
      by auto
    then show "(\<exists>p. match_pattern k test t = Inr p \<and> index_of p y = im) =
               (match_pattern k test t = Inr w)"
      using idx [of p] by auto
  qed
  finally have res: "reduce_targets_by_test k targets test =
          Inr (filter (\<lambda>t. match_pattern k test t = Inr w) targets)" .
  have largest: "count_list ps q \<le> count_list ps w" for q
  proof (cases "q \<in> set ps")
    case True
    then have j: "index_of q y < length y" and q: "y ! index_of q y = q"
      using set_y by (simp_all add: index_of_less nth_index_of)
    have "length cnt = length y"
      by (simp add: cnt_def)
    then have "cnt ! index_of q y \<le> cnt ! im"
      using k_max j by simp
    then show ?thesis
      using cnt_nth [OF j] cnt_nth [OF k_y] q by (simp add: w_def)
  next
    case False
    then show ?thesis by (simp add: count_list_0_iff [THEN iffD2])
  qed
  have first: "index_of w ps < index_of q ps"
    if q_in: "q \<in> set ps" and q_ne: "q \<noteq> w" and tie: "count_list ps q = count_list ps w" for q
  proof -
    let ?j = "index_of q y"
    have j: "?j < length y" and q: "y ! ?j = q"
      using q_in set_y by (simp_all add: index_of_less nth_index_of)
    have "cnt ! ?j = cnt ! im"
      using cnt_nth [OF j] cnt_nth [OF k_y] q tie by (simp add: w_def)
    then have "\<not> ?j < im"
      using k_first by auto
    moreover have "?j \<noteq> im"
      using q q_ne by (auto simp: w_def)
    ultimately have "im < ?j" by simp
    then have "index_of (unique_acc [] ps ! im) ([] @ ps) < index_of (unique_acc [] ps ! ?j) ([] @ ps)"
      using j by (intro unique_acc_order) (simp_all add: y_def)
    then show ?thesis
      using q by (simp add: w_def y_def)
  qed
  show ?thesis
    using w_in res largest first by blast
qed

lemma index_of_le_nth: "j < length ys \<Longrightarrow> index_of (ys ! j) ys \<le> j"
  using index_of_first [of j "ys ! j" ys] by (cases "j < index_of (ys ! j) ys") auto

lemma patterns_of_targets:
  assumes "map (match_pattern k test) targets = map Inr ps"
  shows "length ps = length targets"
    and "\<And>i. i < length targets \<Longrightarrow> match_pattern k test (targets ! i) = Inr (ps ! i)"
    and "\<And>q. length (pattern_group k test targets q) = count_list ps q"
proof -
  show l: "length ps = length targets"
    using assms by (metis length_map)
  show "match_pattern k test (targets ! i) = Inr (ps ! i)" if "i < length targets" for i
    using assms that l by (metis nth_map)
  show "length (pattern_group k test targets q) = count_list ps q" for q
    unfolding pattern_group_def by (rule count_list_map [OF assms, symmetric])
qed

subsection \<open>The largest group\<close>




subsection \<open>Size of the result\<close>







subsection \<open>Ties between groups\<close>




text \<open>
  Claim C2 says that among groups that tie for the largest size the one with the smallest
  pattern integer is returned. With test \<open>speed\<close> and targets \<open>abide\<close>, \<open>civic\<close> the two
  groups have one element each, with patterns 90 and 0; the result is the group of 90, on
  either kernel.
\<close>

theorem smallest_pattern_tie_break_counterexample:
  "match_pattern Host ''speed'' ''abide'' = Inr 90 \<and>
   match_pattern Host ''speed'' ''civic'' = Inr 0 \<and>
   pattern_group Host ''speed'' [''abide'', ''civic''] 90 = [''abide''] \<and>
   pattern_group Host ''speed'' [''abide'', ''civic''] 0 = [''civic''] \<and>
   reduce_targets_by_test Host [''abide'', ''civic''] ''speed'' = Inr [''abide''] \<and>
   reduce_targets_by_test Host [''abide'', ''civic''] ''speed''
     \<noteq> Inr (pattern_group Host ''speed'' [''abide'', ''civic''] 0) \<and>
   match_pattern Accelerator ''speed'' ''abide'' = Inr 90 \<and>
   match_pattern Accelerator ''speed'' ''civic'' = Inr 0 \<and>
   pattern_group Accelerator ''speed'' [''abide'', ''civic''] 90 = [''abide''] \<and>
   pattern_group Accelerator ''speed'' [''abide'', ''civic''] 0 = [''civic''] \<and>
   reduce_targets_by_test Accelerator [''abide'', ''civic''] ''speed'' = Inr [''abide''] \<and>
   reduce_targets_by_test Accelerator [''abide'', ''civic''] ''speed''
     \<noteq> Inr (pattern_group Accelerator ''speed'' [''abide'', ''civic''] 0)"
  by code_simp

text \<open>
  Claim C2, amended: for a non-empty list of valid targets and a valid test word, on the
  accelerator kernel, or on the host kernel when no target shares a green position with the
  test word, \<open>reduce_targets_by_test\<close> returns a non-empty group of largest size, and for
  every other pattern \<open>q\<close> whose group has the same size, some target of the returned group
  comes before every target of the group of \<open>q\<close>: among ties the group seen first is
  returned, which need not be the one with the smallest pattern integer.
\<close>

theorem reduce_tie_earliest_pattern:
  assumes vt: "valid_word test" and vs: "\<forall>t\<in>set targets. valid_word t" and ne: "targets \<noteq> []"
    and ok: "k = Accelerator \<or> (\<forall>t\<in>set targets. no_green test t)"
  shows "\<exists>w. reduce_targets_by_test k targets test = Inr (pattern_group k test targets w) \<and>
           pattern_group k test targets w \<noteq> [] \<and>
           (\<forall>q. length (pattern_group k test targets q) \<le> length (pattern_group k test targets w)) \<and>
           (\<forall>q. q \<noteq> w \<and>
                length (pattern_group k test targets q) = length (pattern_group k test targets w) \<longrightarrow>
                (\<exists>i<length targets. match_pattern k test (targets ! i) = Inr w \<and>
                    (\<forall>j\<le>i. match_pattern k test (targets ! j) \<noteq> Inr q)))"
proof -
  obtain ps where ps: "map (match_pattern k test) targets = map Inr ps"
    using patterns_exist [OF vt vs ok] by auto
  note len = patterns_of_targets(1) [OF ps]
  note pat = patterns_of_targets(2) [OF ps]
  note grp = patterns_of_targets(3) [OF ps]
  obtain w where w_in: "w \<in> set ps"
    and res: "reduce_targets_by_test k targets test =
                Inr (filter (\<lambda>t. match_pattern k test t = Inr w) targets)"
    and largest: "\<forall>q. count_list ps q \<le> count_list ps w"
    and first: "\<forall>q\<in>set ps. q \<noteq> w \<and> count_list ps q = count_list ps w \<longrightarrow>
                  index_of w ps < index_of q ps"
    using reduce_winner [OF ps ne] by auto
  have w_pos: "count_list ps w \<noteq> 0"
    using w_in by (simp add: count_list_0_iff)
  then have nonempty: "pattern_group k test targets w \<noteq> []"
    using grp [of w] by auto
  define i where "i = index_of w ps"
  have i_len: "i < length targets"
    using w_in by (simp add: i_def index_of_less len [symmetric])
  have i_pat: "match_pattern k test (targets ! i) = Inr w"
    using pat [OF i_len] w_in by (simp add: i_def nth_index_of)
  have later: "match_pattern k test (targets ! j) \<noteq> Inr q"
    if q_ne: "q \<noteq> w"
      and tie: "length (pattern_group k test targets q) = length (pattern_group k test targets w)"
      and j: "j \<le> i" for q j
  proof
    assume q: "match_pattern k test (targets ! j) = Inr q"
    have j_len: "j < length ps"
      using j i_len len by simp
    have q_nth: "ps ! j = q"
      using pat [of j] q j i_len by simp
    then have q_in: "q \<in> set ps"
      using j_len by auto
    have "index_of q ps \<le> j"
      using index_of_le_nth [OF j_len] q_nth by simp
    moreover have "index_of w ps < index_of q ps"
      using first q_in q_ne tie by (simp add: grp)
    ultimately show False
      using j by (simp add: i_def)
  qed
  have "reduce_targets_by_test k targets test = Inr (pattern_group k test targets w)"
    using res by (simp add: pattern_group_def)
  moreover have "\<forall>q. length (pattern_group k test targets q) \<le> length (pattern_group k test targets w)"
    using largest by (simp add: grp)
  ultimately show ?thesis
    using nonempty i_len i_pat later by blast
qed

theorem reduce_tie_earliest_pattern_witness:
  "valid_word ''speed'' \<and>
   valid_word ''civic'' \<and>
   valid_word ''abide'' \<and>
   no_green ''speed'' ''civic'' \<and>
   no_green ''speed'' ''abide'' \<and>
   [''civic'', ''abide''] \<noteq> [] \<and>
   (\<exists>w. reduce_targets_by_test Host [''civic'', ''abide''] ''speed'' = Inr (pattern_group Host ''speed'' [''civic'', ''abide''] w) \<and>
           pattern_group Host ''speed'' [''civic'', ''abide''] w \<noteq> [] \<and>
           (\<forall>q. length (pattern_group Host ''speed'' [''civic'', ''abide''] q) \<le> length (pattern_group Host ''speed'' [''civic'', ''abide''] w)) \<and>
           (\<forall>q. q \<noteq> w \<and>
                length (pattern_group Host ''speed'' [''civic'', ''abide''] q) = length (pattern_group Host ''speed'' [''civic'', ''abide''] w) \<longrightarrow>
                (\<exists>i<length [''civic'', ''abide'']. match_pattern Host ''speed'' ([''civic'', ''abide''] ! i) = Inr w \<and>
                    (\<forall>j\<le>i. match_pattern Host ''speed'' ([''civic'', ''abide''] ! j) \<noteq> Inr q)))) \<and>
   valid_word ''civic'' \<and>
   valid_word ''steam'' \<and>
   [''civic'', ''steam''] \<noteq> [] \<and>
   (\<exists>w. reduce_targets_by_test Accelerator [''civic'', ''steam''] ''speed'' = Inr (pattern_group Accelerator ''speed'' [''civic'', ''steam''] w) \<and>
           pattern_group Accelerator ''speed'' [''civic'', ''steam''] w \<noteq> [] \<and>
           (\<forall>q. length (pattern_group Accelerator ''speed'' [''civic'', ''steam''] q) \<le> length (pattern_group Accelerator ''speed'' [''civic'', ''steam''] w)) \<and>
           (\<forall>q. q \<noteq> w \<and>
                length (pattern_group Accelerator ''speed'' [''civic'', ''steam''] q) = length (pattern_group Accelerator ''speed'' [''civic'', ''steam''] w) \<longrightarrow>
                (\<exists>i<length [''civic'', ''steam'']. match_pattern Accelerator ''speed'' ([''civic'', ''steam''] ! i) = Inr w \<and>
                    (\<forall>j\<le>i. match_pattern Accelerator ''speed'' ([''civic'', ''steam''] ! j) \<noteq> Inr q))))"
proof -
  have v: "valid_word ''speed''"
    by (simp add: valid_word_def word_length_def)
  have h1: "valid_word ''civic''"
    by (simp add: valid_word_def word_length_def)
  have h2: "valid_word ''abide''"
    by (simp add: valid_word_def word_length_def)
  have n1: "no_green ''speed'' ''civic''"
    by (simp add: no_green_def)
  have n2: "no_green ''speed'' ''abide''"
    by (simp add: no_green_def)
  have hs: "\<forall>t\<in>set [''civic'', ''abide'']. valid_word t"
    using h1 h2 by simp
  have hne: "[''civic'', ''abide''] \<noteq> []"
    by simp
  have hok: "Host = Accelerator \<or> (\<forall>t\<in>set [''civic'', ''abide'']. no_green ''speed'' t)"
    using n1 n2 by simp
  have a1: "valid_word ''civic''"
    by (simp add: valid_word_def word_length_def)
  have a2: "valid_word ''steam''"
    by (simp add: valid_word_def word_length_def)
  have as: "\<forall>t\<in>set [''civic'', ''steam'']. valid_word t"
    using a1 a2 by simp
  have ane: "[''civic'', ''steam''] \<noteq> []"
    by simp
  have aok: "Accelerator = Accelerator \<or> (\<forall>t\<in>set [''civic'', ''steam'']. no_green ''speed'' t)"
    by simp
  show ?thesis
    by (intro conjI v h1 h2 n1 n2 hne reduce_tie_earliest_pattern [OF v hs hne hok]
        a1 a2 ane reduce_tie_earliest_pattern [OF v as ane aok])
qed


end
